theory Spec2Isabelle
  imports Complex_Main "HOL-Library.Word" "HOL-Library.Sublist"
begin

unbundle bit_operations_syntax

section \<open>Python strings\<close>

text \<open>
  A Python \<open>str\<close> is modelled as an Isabelle \<open>string\<close> holding its UTF-8 bytes, so that
  \<open>str.encode()\<close> is the identity on the bytes. \<open>str.strip()\<close> and \<open>str.lower()\<close> are
  modelled on the ASCII range, where they are exact: the ASCII characters with
  \<open>isspace()\<close> true are 0x09-0x0D, 0x1C-0x1F and 0x20, and \<open>lower()\<close> maps A-Z to a-z.
  Bytes from 0x80 on belong to multi-byte characters and are left alone.
\<close>

definition isspace :: "char \<Rightarrow> bool" where
  "isspace c = (let n = (of_char c :: nat) in (9 \<le> n \<and> n \<le> 13) \<or> (28 \<le> n \<and> n \<le> 32))"

definition strip :: "string \<Rightarrow> string" where
  "strip s = rev (dropWhile isspace (rev (dropWhile isspace s)))"

definition lower_char :: "char \<Rightarrow> char" where
  "lower_char c = (let n = (of_char c :: nat) in if 65 \<le> n \<and> n \<le> 90 then char_of (n + 32) else c)"

definition lower :: "string \<Rightarrow> string" where
  "lower s = map lower_char s"

text \<open>Python's \<open>needle in haystack\<close> on strings.\<close>

fun contains :: "string \<Rightarrow> string \<Rightarrow> bool" where
  "contains needle [] = (needle = [])"
| "contains needle (c # cs) = (prefix needle (c # cs) \<or> contains needle cs)"

section \<open>hashlib.md5 (RFC 1321)\<close>

type_synonym u8 = "8 word"
type_synonym u32 = "32 word"
type_synonym md5_state = "u32 \<times> u32 \<times> u32 \<times> u32"

definition md5_K :: "u32 list" where
  "md5_K =
    [0xd76aa478, 0xe8c7b756, 0x242070db, 0xc1bdceee, 0xf57c0faf, 0x4787c62a, 0xa8304613, 0xfd469501,
     0x698098d8, 0x8b44f7af, 0xffff5bb1, 0x895cd7be, 0x6b901122, 0xfd987193, 0xa679438e, 0x49b40821,
     0xf61e2562, 0xc040b340, 0x265e5a51, 0xe9b6c7aa, 0xd62f105d, 0x02441453, 0xd8a1e681, 0xe7d3fbc8,
     0x21e1cde6, 0xc33707d6, 0xf4d50d87, 0x455a14ed, 0xa9e3e905, 0xfcefa3f8, 0x676f02d9, 0x8d2a4c8a,
     0xfffa3942, 0x8771f681, 0x6d9d6122, 0xfde5380c, 0xa4beea44, 0x4bdecfa9, 0xf6bb4b60, 0xbebfbc70,
     0x289b7ec6, 0xeaa127fa, 0xd4ef3085, 0x04881d05, 0xd9d4d039, 0xe6db99e5, 0x1fa27cf8, 0xc4ac5665,
     0xf4292244, 0x432aff97, 0xab9423a7, 0xfc93a039, 0x655b59c3, 0x8f0ccc92, 0xffeff47d, 0x85845dd1,
     0x6fa87e4f, 0xfe2ce6e0, 0xa3014314, 0x4e0811a1, 0xf7537e82, 0xbd3af235, 0x2ad7d2bb, 0xeb86d391]"

definition md5_s :: "nat list" where
  "md5_s =
    [7, 12, 17, 22, 7, 12, 17, 22, 7, 12, 17, 22, 7, 12, 17, 22,
     5, 9, 14, 20, 5, 9, 14, 20, 5, 9, 14, 20, 5, 9, 14, 20,
     4, 11, 16, 23, 4, 11, 16, 23, 4, 11, 16, 23, 4, 11, 16, 23,
     6, 10, 15, 21, 6, 10, 15, 21, 6, 10, 15, 21, 6, 10, 15, 21]"

definition md5_pad :: "u8 list \<Rightarrow> u8 list" where
  "md5_pad m =
     (let bits = (word_of_nat (length m) * 8 :: 64 word)
      in m @ [0x80] @ replicate ((64 - (length m + 9) mod 64) mod 64) 0
           @ map (\<lambda>i. ucast (drop_bit (8 * i) bits)) [0..<8])"

fun le_words :: "u8 list \<Rightarrow> u32 list" where
  "le_words (b0 # b1 # b2 # b3 # bs) =
     (ucast b0 OR push_bit 8 (ucast b1) OR push_bit 16 (ucast b2) OR push_bit 24 (ucast b3))
       # le_words bs"
| "le_words _ = []"

definition rotl32 :: "nat \<Rightarrow> u32 \<Rightarrow> u32" where
  "rotl32 n x = push_bit n x OR drop_bit (32 - n) x"

fun md5_step :: "u32 list \<Rightarrow> md5_state \<Rightarrow> nat \<Rightarrow> md5_state" where
  "md5_step M (a, b, c, d) i =
     (let f = (if i < 16 then (b AND c) OR (NOT b AND d)
               else if i < 32 then (d AND b) OR (NOT d AND c)
               else if i < 48 then b XOR c XOR d
               else c XOR (b OR NOT d));
          g = (if i < 16 then i
               else if i < 32 then (5 * i + 1) mod 16
               else if i < 48 then (3 * i + 5) mod 16
               else (7 * i) mod 16);
          f' = f + a + md5_K ! i + M ! g
      in (d, b + rotl32 (md5_s ! i) f', b, c))"

fun md5_block :: "md5_state \<Rightarrow> u32 list \<Rightarrow> md5_state" where
  "md5_block (a0, b0, c0, d0) M =
     (case foldl (md5_step M) (a0, b0, c0, d0) [0..<64] of
        (a, b, c, d) \<Rightarrow> (a0 + a, b0 + b, c0 + c, d0 + d))"

fun chunks :: "nat \<Rightarrow> 'a list \<Rightarrow> 'a list list" where
  "chunks n [] = []"
| "chunks n (x # xs) = take n (x # xs) # chunks n (drop (n - 1) xs)"

definition le_bytes32 :: "u32 \<Rightarrow> u8 list" where
  "le_bytes32 x = map (\<lambda>i. ucast (drop_bit (8 * i) x)) [0..<4]"

definition md5_digest :: "u8 list \<Rightarrow> u8 list" where
  "md5_digest m =
     (case foldl md5_block (0x67452301, 0xefcdab89, 0x98badcfe, 0x10325476)
             (chunks 16 (le_words (md5_pad m))) of
        (a, b, c, d) \<Rightarrow> le_bytes32 a @ le_bytes32 b @ le_bytes32 c @ le_bytes32 d)"

definition hex_byte :: "u8 \<Rightarrow> string" where
  "hex_byte b = [''0123456789abcdef'' ! (unat b div 16), ''0123456789abcdef'' ! (unat b mod 16)]"

definition hexdigest :: "u8 list \<Rightarrow> string" where
  "hexdigest m = concat (map hex_byte (md5_digest m))"

definition encode :: "string \<Rightarrow> u8 list" where
  "encode s = map of_char s"

section \<open>The world outside the object: clock, sleeping, the external agent\<close>

text \<open>
  \<open>time.time()\<close> reads \<open>clock\<close>; time is a real number of seconds. \<open>time.sleep(d)\<close> advances
  the clock by \<open>d\<close> and is recorded in \<open>sleeps\<close>. The external agent is opaque: its answer
  to its \<open>i\<close>-th invocation (counted from 0) on a prompt is a duration and either the
  \<open>output\<close> text or the text \<open>str(e)\<close> of the exception it raises. Each invocation is
  recorded in \<open>calls\<close> with the time it was issued at.
\<close>

datatype reply = Output string | Raises string

type_synonym agent = "nat \<Rightarrow> string \<Rightarrow> real \<times> reply"

record world =
  clock :: real
  sleeps :: "real list"
  calls :: "(real \<times> string) list"

definition time_sleep :: "real \<Rightarrow> world \<Rightarrow> world" where
  "time_sleep d w = w\<lparr>clock := clock w + d, sleeps := sleeps w @ [d]\<rparr>"

definition invoke :: "agent \<Rightarrow> string \<Rightarrow> world \<Rightarrow> reply \<times> world" where
  "invoke a p w =
     (case a (length (calls w)) p of
        (d, r) \<Rightarrow> (r, w\<lparr>clock := clock w + d, calls := calls w @ [(clock w, p)]\<rparr>))"

section \<open>PropertyMatchmaker\<close>

record ('d, 'l) matchmaker =
  df :: 'd
  llm :: 'l
  agent :: agent
  cache :: "string \<rightharpoonup> string"
  request_times :: "real list"

text \<open>\<open>__init__\<close>, given the loaded dataframe, the chat model and the agent built on them.\<close>

definition init :: "'d \<Rightarrow> 'l \<Rightarrow> agent \<Rightarrow> ('d, 'l) matchmaker" where
  "init d l a = \<lparr>df = d, llm = l, agent = a, cache = Map.empty, request_times = []\<rparr>"

datatype error = IndexError | AgentError string

text \<open>
  \<open>_rate_limit\<close>. The result is the exception raised, if any, with the world and the object
  as the call leaves them: the pruned list is assigned before \<open>self._request_times[0]\<close>
  is read, which raises IndexError on an empty list.
\<close>

fun rate_limit :: "int \<Rightarrow> world \<times> ('d, 'l) matchmaker \<Rightarrow> error option \<times> world \<times> ('d, 'l) matchmaker" where
  "rate_limit max_rpm (w, s) =
     (let now = clock w;
          s1 = s\<lparr>request_times := filter (\<lambda>t. now - t < 60) (request_times s)\<rparr>
      in if max_rpm \<le> int (length (request_times s1)) then
           (case request_times s1 of
              [] \<Rightarrow> (Some IndexError, w, s1)
            | t0 # _ \<Rightarrow>
                (let wait = 60 - (now - t0);
                     w1 = (if 0 < wait then time_sleep wait w else w)
                 in (None, w1, s1\<lparr>request_times := request_times s1 @ [clock w1]\<rparr>)))
         else (None, w, s1\<lparr>request_times := request_times s1 @ [clock w]\<rparr>))"

definition cache_key :: "string \<Rightarrow> string" where
  "cache_key user_query = hexdigest (encode (lower (strip user_query)))"

definition system_prompt :: string where
  "system_prompt =
     ''You are a smart property search agent. Your goal is to find the right match of properties based on the user'' @ [CHR 0x27] @ ''s query. ''
     @ ''Queries may not be structured properly, therefore use your intelligence to understand the query well. ''
     @ ''Determine if the request is for sale or rent. ''
     @ ''Find properties that match the query and pick only the active ones. ''
     @ ''If a specific requirement (like a pool) isn'' @ [CHR 0x27] @ ''t met exactly, suggest the closest match. ''
     @ ''Always return the Ref No, Location/Building Name, Size, No of Bedrooms, Price, and a short ''
     @ [CHR 0x27] @ ''Why it fits'' @ [CHR 0x27] @ '' summary for each matching property.''"

definition prompt :: "string \<Rightarrow> string" where
  "prompt user_query = system_prompt @ [CHR 0x0A, CHR 0x0A] @ ''User Request: '' @ user_query"

text \<open>The message returned when every attempt was rate limited, as UTF-8 bytes.\<close>

definition could_not_complete :: string where
  "could_not_complete =
     [CHR 0xE2, CHR 0x9D, CHR 0x8C] @ '' Could not complete search '' @ [CHR 0xE2, CHR 0x80, CHR 0x94]
     @ '' rate limit exceeded. Please try again in a few minutes.''"

definition rate_limited :: "string \<Rightarrow> bool" where
  "rate_limited err_str =
     (contains ''429'' err_str \<or> contains ''rate'' err_str \<or> contains ''resource_exhausted'' err_str)"

text \<open>
  How a call of \<open>search_properties\<close> ends, one constructor for each exit of the source:
  the cached result returned, the agent's output returned, an exception
  propagated, and the fixed message returned after the loop.
\<close>

datatype outcome = Cached string | Answered string | Reraised error | GaveUp

fun returned :: "outcome \<Rightarrow> error + string" where
  "returned (Cached r) = Inr r"
| "returned (Answered r) = Inr r"
| "returned (Reraised e) = Inl e"
| "returned GaveUp = Inr could_not_complete"

text \<open>The loop \<open>for attempt in range(max_retries)\<close>, entered at \<open>attempt\<close>.\<close>

function attempts :: "string \<Rightarrow> string \<Rightarrow> int \<Rightarrow> int \<Rightarrow> world \<times> ('d, 'l) matchmaker
    \<Rightarrow> outcome \<times> world \<times> ('d, 'l) matchmaker" where
  "attempts user_query key max_retries attempt (w, s) =
     (if attempt < max_retries then
        (case invoke (agent s) (prompt user_query) w of
           (Output result, w1) \<Rightarrow> (Answered result, w1, s\<lparr>cache := (cache s)(key \<mapsto> result)\<rparr>)
         | (Raises e, w1) \<Rightarrow>
             if rate_limited (lower e) then
               attempts user_query key max_retries (attempt + 1)
                 (time_sleep (of_int ((attempt + 1) * 40)) w1, s)
             else (Reraised (AgentError e), w1, s))
      else (GaveUp, w, s))"
  by pat_completeness auto
termination
  by (relation "measure (\<lambda>(q, k, m, a, ws). nat (m - a))") auto

fun search_properties :: "string \<Rightarrow> int \<Rightarrow> world \<times> ('d, 'l) matchmaker
    \<Rightarrow> outcome \<times> world \<times> ('d, 'l) matchmaker" where
  "search_properties user_query max_retries (w, s) =
     (case cache s (cache_key user_query) of
        Some r \<Rightarrow> (Cached r, w, s)
      | None \<Rightarrow>
          (case rate_limit 10 (w, s) of
             (Some e, w1, s1) \<Rightarrow> (Reraised e, w1, s1)
           | (None, w1, s1) \<Rightarrow> attempts user_query (cache_key user_query) max_retries 0 (w1, s1)))"

text \<open>
  A session of the application: the queries arrive one after the other, each after a
  pause, and the object lives on whatever way a call ends.
\<close>

datatype request = Request (pause: real) (query: string) (retries: int)

fun session :: "request list \<Rightarrow> world \<times> ('d, 'l) matchmaker \<Rightarrow> world \<times> ('d, 'l) matchmaker" where
  "session [] ws = ws"
| "session (r # rs) (w, s) =
     session rs (snd (search_properties (query r) (retries r) (w\<lparr>clock := clock w + pause r\<rparr>, s)))"

section \<open>Notions used in the statements\<close>

text \<open>
  The agent's \<open>i\<close>-th invocation raises an error that line 102 classifies as a rate limit:
  the lowercased text contains \<open>429\<close>, \<open>rate\<close> or \<open>resource_exhausted\<close>.
\<close>

definition raises_rate_limit :: "agent \<Rightarrow> string \<Rightarrow> nat \<Rightarrow> bool" where
  "raises_rate_limit a p i =
     (case snd (a i p) of Raises e \<Rightarrow> rate_limited (lower e) | Output r \<Rightarrow> False)"

text \<open>The sleep after the failure of the attempt \<open>i\<close> places after \<open>attempt\<close> (line 103).\<close>

definition backoff :: "int \<Rightarrow> nat \<Rightarrow> real" where
  "backoff attempt i = of_int ((attempt + int i + 1) * 40)"

section \<open>Concrete worlds, agents and objects for the examples\<close>

definition w0 :: world where
  "w0 = \<lparr>clock = 0, sleeps = [], calls = []\<rparr>"

definition fresh :: "agent \<Rightarrow> (unit, unit) matchmaker" where
  "fresh a = init () () a"

text \<open>An agent that is rate limited twice and then answers.\<close>

definition flaky :: agent where
  "flaky = (\<lambda>i p. if i < 2 then (1, Raises ''Error code: 429 - Rate limit reached'')
                  else (2, Output ''Ref 101, Marina, 3BR''))"

text \<open>An agent that is rate limited once and then fails for another reason.\<close>

definition limited_then_broken :: agent where
  "limited_then_broken = (\<lambda>i p. if i < 1 then (1, Raises ''Error code: 429 - Rate limit reached'')
                                else (1, Raises ''Invalid API Key''))"


section \<open>The throttle's window\<close>

text \<open>The entries of a log within the trailing 60 seconds of \<open>now\<close>, as line 56 keeps them.\<close>

definition recent :: "real \<Rightarrow> real list \<Rightarrow> real list" where
  "recent now ts = filter (\<lambda>t. now - t < 60) ts"

text \<open>The log is in nondecreasing order and holds no time later than the clock.\<close>

definition log_ok :: "world \<times> ('d, 'l) matchmaker \<Rightarrow> bool" where
  "log_ok ws = (sorted (request_times (snd ws)) \<and> list_all (\<lambda>t. t \<le> clock (fst ws)) (request_times (snd ws)))"

text \<open>At most \<open>k\<close> logged timestamps lie within the trailing 60 seconds of the clock.\<close>

definition within_budget :: "int \<Rightarrow> world \<times> ('d, 'l) matchmaker \<Rightarrow> bool" where
  "within_budget k ws = (int (length (recent (clock (fst ws)) (request_times (snd ws)))) \<le> k)"

text \<open>The agent invocations issued within the trailing 60 seconds of \<open>T\<close>.\<close>

definition calls_within :: "real \<Rightarrow> world \<Rightarrow> (real \<times> string) list" where
  "calls_within T w = filter (\<lambda>c. T - fst c < 60 \<and> fst c \<le> T) (calls w)"

text \<open>Ten seconds after a fresh start.\<close>

definition w10 :: world where
  "w10 = \<lparr>clock = 10, sleeps = [], calls = []\<rparr>"

text \<open>Ten searches for the same query, one right after the other.\<close>

definition burst :: "request list" where
  "burst = replicate 10 (Request 0 ''3 bed villa with pool'' 3)"

(*DEFS*)

section \<open>The retry loop\<close>

declare attempts.simps [simp del]

declare rate_limit.simps [simp del]

declare search_properties.simps [simp del]

lemma attempts_exhausted:
  "\<not> attempt < max_retries \<Longrightarrow> attempts q k max_retries attempt (w, s) = (GaveUp, w, s)"
  by (simp add: attempts.simps)

lemma invoke_simps [simp]:
  "fst (invoke a p w) = snd (a (length (calls w)) p)"
  "clock (snd (invoke a p w)) = clock w + fst (a (length (calls w)) p)"
  "calls (snd (invoke a p w)) = calls w @ [(clock w, p)]"
  "sleeps (snd (invoke a p w)) = sleeps w"
  by (simp_all add: invoke_def split: prod.splits)

lemma time_sleep_simps [simp]:
  "clock (time_sleep d w) = clock w + d"
  "calls (time_sleep d w) = calls w"
  "sleeps (time_sleep d w) = sleeps w @ [d]"
  by (simp_all add: time_sleep_def)

lemma attempts_output:
  assumes "attempt < max_retries" and "snd (agent s (length (calls w)) (prompt q)) = Output r"
  shows "attempts q k max_retries attempt (w, s) =
           (Answered r, snd (invoke (agent s) (prompt q) w), s\<lparr>cache := (cache s)(k \<mapsto> r)\<rparr>)"
  using assms
  by (cases "agent s (length (calls w)) (prompt q)") (simp add: attempts.simps invoke_def)

lemma attempts_reraise:
  assumes "attempt < max_retries" and "snd (agent s (length (calls w)) (prompt q)) = Raises e"
    and "\<not> rate_limited (lower e)"
  shows "attempts q k max_retries attempt (w, s) =
           (Reraised (AgentError e), snd (invoke (agent s) (prompt q) w), s)"
  using assms
  by (cases "agent s (length (calls w)) (prompt q)") (simp add: attempts.simps invoke_def)

lemma attempts_backoff:
  assumes "attempt < max_retries" and "raises_rate_limit (agent s) (prompt q) (length (calls w))"
  shows "attempts q k max_retries attempt (w, s) =
           attempts q k max_retries (attempt + 1)
             (time_sleep (backoff attempt 0) (snd (invoke (agent s) (prompt q) w)), s)"
proof -
  obtain d r where ag: "agent s (length (calls w)) (prompt q) = (d, r)"
    by (cases "agent s (length (calls w)) (prompt q)")
  with assms(2) obtain e where r: "r = Raises e" and rl: "rate_limited (lower e)"
    by (cases r) (simp_all add: raises_rate_limit_def)
  show ?thesis
    by (subst attempts.simps) (simp add: assms(1) ag r rl invoke_def backoff_def)
qed

lemma attempts_skip:
  assumes "\<forall>i<j. raises_rate_limit (agent s) (prompt q) (length (calls w) + i)"
    and "attempt + int j \<le> max_retries"
  shows "\<exists>w'. attempts q k max_retries attempt (w, s) =
                attempts q k max_retries (attempt + int j) (w', s)
            \<and> length (calls w') = length (calls w) + j
            \<and> sleeps w' = sleeps w @ map (backoff attempt) [0..<j]"
  using assms
proof (induction j arbitrary: w attempt)
  case 0
  show ?case by (intro exI [of _ w]) simp
next
  case (Suc j)
  let ?w1 = "time_sleep (backoff attempt 0) (snd (invoke (agent s) (prompt q) w))"
  from Suc.prems have first: "raises_rate_limit (agent s) (prompt q) (length (calls w))"
    and lt: "attempt < max_retries" by auto
  have step: "attempts q k max_retries attempt (w, s) = attempts q k max_retries (attempt + 1) (?w1, s)"
    by (rule attempts_backoff [OF lt first])
  have rest: "\<forall>i<j. raises_rate_limit (agent s) (prompt q) (length (calls ?w1) + i)"
    using Suc.prems(1) by auto
  have le: "attempt + 1 + int j \<le> max_retries" using Suc.prems(2) by simp
  from Suc.IH [OF rest le] obtain w' where
    w': "attempts q k max_retries (attempt + 1) (?w1, s) =
           attempts q k max_retries (attempt + 1 + int j) (w', s)"
      "length (calls w') = length (calls ?w1) + j"
      "sleeps w' = sleeps ?w1 @ map (backoff (attempt + 1)) [0..<j]"
    by blast
  have shift: "map (backoff (attempt + 1)) [0..<j] = map (\<lambda>i. backoff attempt (Suc i)) [0..<j]"
    by (simp add: backoff_def add.commute add.left_commute)
  have idx: "attempt + int (Suc j) = attempt + 1 + int j" by simp
  have "sleeps w' = sleeps w @ map (backoff attempt) [0..<Suc j]"
    unfolding w'(3) shift by (simp add: map_upt_Suc del: upt_Suc)
  moreover have "attempts q k max_retries attempt (w, s) =
      attempts q k max_retries (attempt + int (Suc j)) (w', s)"
    unfolding idx using step w'(1) by simp
  moreover have "length (calls w') = length (calls w) + Suc j" using w'(2) by simp
  ultimately show ?case by blast
qed

lemma rate_limit_10_object:
  "\<exists>w1. rate_limit 10 (w, s) =
      (None, w1, s\<lparr>request_times := filter (\<lambda>t. clock w - t < 60) (request_times s) @ [clock w1]\<rparr>)
      \<and> calls w1 = calls w"
  by (cases "filter (\<lambda>t. clock w - t < 60) (request_times s)")
     (auto simp: rate_limit.simps Let_def)

lemma search_miss:
  assumes "cache s (cache_key q) = None"
  shows "search_properties q m (w, s) =
           attempts q (cache_key q) m 0 (snd (rate_limit 10 (w, s)))"
  using assms rate_limit_10_object [of w s] by (auto simp: search_properties.simps)

lemma attempts_object:
  assumes "attempts q k m a ws = (res, w', s')"
  shows "case res of
           Answered r \<Rightarrow> s' = (snd ws)\<lparr>cache := (cache (snd ws))(k \<mapsto> r)\<rparr>
               \<and> length (calls (fst ws)) < length (calls w')
               \<and> snd (agent (snd ws) (length (calls w') - 1) (prompt q)) = Output r
         | Cached r \<Rightarrow> False
         | _ \<Rightarrow> s' = snd ws"
  using assms
proof (induction q k m a ws arbitrary: res w' s' rule: attempts.induct)
  case (1 q k m a w s)
  show ?case
  proof (cases "a < m")
    case False
    with "1.prems" show ?thesis by (simp add: attempts_exhausted)
  next
    case True
    show ?thesis
    proof (cases "snd (agent s (length (calls w)) (prompt q))")
      case (Output out)
      from "1.prems" Output show ?thesis
        unfolding attempts_output [OF True Output] by auto
    next
      case (Raises e)
      show ?thesis
      proof (cases "rate_limited (lower e)")
        case False
        from "1.prems" show ?thesis
          unfolding attempts_reraise [OF True Raises False] by auto
      next
        case rl: True
        have rrl: "raises_rate_limit (agent s) (prompt q) (length (calls w))"
          by (simp add: raises_rate_limit_def Raises rl)
        let ?y = "snd (invoke (agent s) (prompt q) w)"
        have eq: "attempts q k m (a + 1) (time_sleep (real_of_int ((a + 1) * 40)) ?y, s) = (res, w', s')"
          using "1.prems" attempts_backoff [OF True rrl, of k] by (simp add: backoff_def)
        have inv: "(Raises e, ?y) = invoke (agent s) (prompt q) w"
          using Raises by (simp add: prod_eq_iff)
        from "1.IH" [OF True inv refl rl eq] show ?thesis
          by (auto split: outcome.splits)
      qed
    qed
  qed
qed

lemma search_miss_loop:
  assumes "cache s (cache_key q) = None"
  shows "\<exists>w1 s1. search_properties q m (w, s) = attempts q (cache_key q) m 0 (w1, s1)
            \<and> w1 = fst (snd (rate_limit 10 (w, s))) \<and> calls w1 = calls w
            \<and> s1 = s\<lparr>request_times := filter (\<lambda>t. clock w - t < 60) (request_times s) @ [clock w1]\<rparr>
            \<and> agent s1 = agent s \<and> cache s1 = cache s"
  using assms rate_limit_10_object [of w s] by (auto simp: search_properties.simps)

section \<open>The throttle\<close>

lemma recent_later: "now \<le> now' \<Longrightarrow> length (recent now' ts) \<le> length (recent now ts)"
  by (induction ts) (auto simp: recent_def)

lemma recent_idem [simp]: "recent now (recent now ts) = recent now ts"
  by (simp add: recent_def)

lemma recent_sorted: "sorted ts \<Longrightarrow> sorted (recent now ts)"
  by (simp add: recent_def sorted_wrt_filter)

lemma rate_limit_result:
  assumes "1 \<le> max_rpm"
  shows "rate_limit max_rpm (w, s) =
           (let pruned = recent (clock w) (request_times s);
                wait = 60 - (clock w - hd pruned);
                w' = (if max_rpm \<le> int (length pruned) \<and> 0 < wait then time_sleep wait w else w)
            in (None, w', s\<lparr>request_times := pruned @ [clock w']\<rparr>))"
  using assms
  by (cases "filter (\<lambda>t. clock w - t < 60) (request_times s)")
     (auto simp: rate_limit.simps Let_def recent_def)

lemma Cons_recent_waits:
  assumes "recent now ts = t0 # rest"
  shows "0 < 60 - (now - t0)"
proof -
  have "t0 \<in> set (recent now ts)" by (simp add: assms)
  then show ?thesis by (simp add: recent_def)
qed

lemma rate_limit_keeps_invariant:
  assumes k: "1 \<le> k" and ok: "log_ok (w, s)" and budget: "within_budget k (w, s)"
    and rl: "rate_limit k (w, s) = (e, w', s')"
  shows "e = None \<and> log_ok (w', s') \<and> within_budget k (w', s') \<and> clock w \<le> clock w'
       \<and> calls w' = calls w \<and> agent s' = agent s \<and> cache s' = cache s"
proof (cases "k \<le> int (length (recent (clock w) (request_times s)))")
  case False
  with rl k have r: "e = None" "w' = w" "s' = s\<lparr>request_times := recent (clock w) (request_times s) @ [clock w]\<rparr>"
    by (auto simp: rate_limit_result Let_def)
  have "sorted (recent (clock w) (request_times s))"
    using ok by (simp add: log_ok_def recent_sorted)
  moreover have "\<forall>t\<in>set (recent (clock w) (request_times s)). t \<le> clock w"
    using ok by (auto simp: log_ok_def recent_def list_all_iff)
  ultimately have "log_ok (w', s')"
    by (auto simp: r log_ok_def sorted_append list_all_iff)
  moreover have "within_budget k (w', s')"
    using False by (simp add: r within_budget_def recent_def)
  ultimately show ?thesis by (simp add: r)
next
  case True
  with k obtain t0 rest where P: "recent (clock w) (request_times s) = t0 # rest"
    by (cases "recent (clock w) (request_times s)") auto
  have wait: "0 < 60 - (clock w - t0)" by (rule Cons_recent_waits [OF P])
  from rl k True wait have r: "e = None" "w' = time_sleep (60 - (clock w - t0)) w"
    "s' = s\<lparr>request_times := (t0 # rest) @ [clock w + (60 - (clock w - t0))]\<rparr>"
    by (auto simp: rate_limit_result Let_def P)
  have srt: "sorted (t0 # rest)" using ok recent_sorted [of "request_times s" "clock w"]
    by (simp add: log_ok_def P)
  have le: "\<forall>t\<in>set (t0 # rest). t \<le> clock w"
  proof
    fix t assume "t \<in> set (t0 # rest)"
    then have "t \<in> set (request_times s)" unfolding P [symmetric] by (simp add: recent_def)
    with ok show "t \<le> clock w" by (simp add: log_ok_def list_all_iff)
  qed
  have "log_ok (w', s')"
    using srt le wait by (auto simp: r log_ok_def sorted_append list_all_iff)
  moreover have "within_budget k (w', s')"
  proof -
    have "int (length (recent (clock w') (request_times s'))) = 1 + int (length (filter ((<) t0) rest))"
      by (simp add: r recent_def)
    also have "\<dots> \<le> 1 + int (length rest)"
      by simp
    also have "\<dots> \<le> k"
      using budget by (simp add: within_budget_def P)
    finally show ?thesis
      by (simp add: within_budget_def)
  qed
  ultimately show ?thesis using wait by (simp add: r)
qed

lemma rate_limit_log_ok:
  assumes ok: "log_ok (w, s)" and rl: "rate_limit k (w, s) = (e, w', s')"
  shows "log_ok (w', s')"
proof -
  let ?P = "filter (\<lambda>t. clock w - t < 60) (request_times s)"
  have srt: "sorted ?P"
    using ok by (simp add: log_ok_def sorted_wrt_filter)
  have le: "\<forall>t\<in>set ?P. t \<le> clock w"
    using ok by (auto simp: log_ok_def list_all_iff)
  have later: "clock w \<le> clock w'"
    using rl by (cases ?P) (auto simp: rate_limit.simps Let_def split: if_splits)
  have log: "request_times s' = ?P \<or> request_times s' = ?P @ [clock w']"
    using rl by (cases ?P) (auto simp: rate_limit.simps Let_def split: if_splits)
  from le later have le': "\<forall>t\<in>set ?P. t \<le> clock w'" by fastforce
  from log show ?thesis
  proof
    assume "request_times s' = ?P"
    with srt le' show ?thesis by (simp add: log_ok_def list_all_iff)
  next
    assume "request_times s' = ?P @ [clock w']"
    with srt le' show ?thesis by (simp add: log_ok_def list_all_iff sorted_append)
  qed
qed

lemma attempts_clock:
  assumes "\<forall>i p. 0 \<le> fst (agent (snd ws) i p)" and "0 \<le> a"
    and "attempts q k m a ws = (res, w', s')"
  shows "clock (fst ws) \<le> clock w'"
  using assms
proof (induction q k m a ws arbitrary: res w' s' rule: attempts.induct)
  case (1 q k m a w s)
  from "1.prems"(1) have d: "0 \<le> fst (agent s (length (calls w)) (prompt q))" by simp
  show ?case
  proof (cases "a < m")
    case False
    with "1.prems" show ?thesis by (simp add: attempts_exhausted)
  next
    case True
    show ?thesis
    proof (cases "snd (agent s (length (calls w)) (prompt q))")
      case (Output out)
      from "1.prems"(3) d show ?thesis
        unfolding attempts_output [OF True Output] by auto
    next
      case (Raises e)
      show ?thesis
      proof (cases "rate_limited (lower e)")
        case False
        from "1.prems"(3) d show ?thesis
          unfolding attempts_reraise [OF True Raises False] by auto
      next
        case rl: True
        have rrl: "raises_rate_limit (agent s) (prompt q) (length (calls w))"
          by (simp add: raises_rate_limit_def Raises rl)
        let ?y = "snd (invoke (agent s) (prompt q) w)"
        let ?w1 = "time_sleep (real_of_int ((a + 1) * 40)) ?y"
        have eq: "attempts q k m (a + 1) (?w1, s) = (res, w', s')"
          using "1.prems"(3) attempts_backoff [OF True rrl, of k] by (simp add: backoff_def)
        have inv: "(Raises e, ?y) = invoke (agent s) (prompt q) w"
          using Raises by (simp add: prod_eq_iff)
        have "clock (fst (?w1, s)) \<le> clock w'"
          using "1.prems"(1,2) by (intro "1.IH" [OF True inv refl rl _ _ eq]) simp_all
        moreover have "clock w \<le> clock ?w1"
          using d "1.prems"(2) by simp
        ultimately show ?thesis by simp
      qed
    qed
  qed
qed

lemma later_keeps_invariant:
  assumes "log_ok (w, s)" and "within_budget k (w, s)" and "clock w \<le> clock w'"
    and "request_times s' = request_times s"
  shows "log_ok (w', s') \<and> within_budget k (w', s')"
proof -
  have "int (length (recent (clock w') (request_times s))) \<le> int (length (recent (clock w) (request_times s)))"
    using recent_later [OF assms(3)] by simp
  with assms show ?thesis
    by (auto simp: log_ok_def within_budget_def list_all_iff)
qed

lemma search_keeps_invariant:
  assumes dur: "\<forall>i p. 0 \<le> fst (agent s i p)"
    and ok: "log_ok (w, s)" and budget: "within_budget 10 (w, s)"
    and res: "search_properties q m (w, s) = (res, w', s')"
  shows "log_ok (w', s') \<and> within_budget 10 (w', s') \<and> agent s' = agent s \<and> clock w \<le> clock w'"
proof (cases "cache s (cache_key q)")
  case (Some r)
  with res ok budget show ?thesis by (auto simp: search_properties.simps)
next
  case None
  obtain e w1 s1 where rl: "rate_limit 10 (w, s) = (e, w1, s1)"
    by (cases "rate_limit 10 (w, s)")
  from rate_limit_keeps_invariant [OF _ ok budget rl]
  have e: "e = None" and ok1: "log_ok (w1, s1)" and b1: "within_budget 10 (w1, s1)"
    and c1: "clock w \<le> clock w1" and a1: "agent s1 = agent s"
    by simp_all
  have loop: "attempts q (cache_key q) m 0 (w1, s1) = (res, w', s')"
    using res None rl e by (simp add: search_properties.simps)
  have c2: "clock w1 \<le> clock w'"
    using attempts_clock [OF _ _ loop] dur a1 by simp
  have s': "request_times s' = request_times s1" "agent s' = agent s1"
    using attempts_object [OF loop] by (auto split: outcome.splits)
  from later_keeps_invariant [OF ok1 b1 c2 s'(1)] c1 c2 s'(2) a1
  show ?thesis by simp
qed

lemma session_keeps_invariant:
  assumes "\<forall>r\<in>set rs. 0 \<le> pause r" and "\<forall>i p. 0 \<le> fst (agent s i p)"
    and "log_ok (w, s)" and "within_budget 10 (w, s)"
  shows "log_ok (session rs (w, s)) \<and> within_budget 10 (session rs (w, s))
       \<and> agent (snd (session rs (w, s))) = agent s \<and> clock w \<le> clock (fst (session rs (w, s)))"
  using assms
proof (induction rs arbitrary: w s)
  case Nil
  then show ?case by simp
next
  case (Cons r rs)
  let ?w0 = "w\<lparr>clock := clock w + pause r\<rparr>"
  obtain res w1 s1 where run: "search_properties (query r) (retries r) (?w0, s) = (res, w1, s1)"
    by (cases "search_properties (query r) (retries r) (?w0, s)")
  have p: "0 \<le> pause r" using Cons.prems(1) by simp
  have "log_ok (?w0, s) \<and> within_budget 10 (?w0, s)"
    using later_keeps_invariant [OF Cons.prems(3,4), of ?w0 s] p by simp
  with search_keeps_invariant [OF Cons.prems(2) _ _ run]
  have inv1: "log_ok (w1, s1)" "within_budget 10 (w1, s1)" "agent s1 = agent s" "clock ?w0 \<le> clock w1"
    by simp_all
  have "\<forall>r\<in>set rs. 0 \<le> pause r" using Cons.prems(1) by simp
  moreover have "\<forall>i p. 0 \<le> fst (agent s1 i p)" using Cons.prems(2) inv1(3) by simp
  ultimately have "log_ok (session rs (w1, s1)) \<and> within_budget 10 (session rs (w1, s1))
       \<and> agent (snd (session rs (w1, s1))) = agent s1 \<and> clock w1 \<le> clock (fst (session rs (w1, s1)))"
    using inv1(1,2) by (rule Cons.IH)
  with inv1(3,4) p show ?case by (simp add: run)
qed

section \<open>Facts about the examples\<close>

lemma flaky_error_lower:
  "lower ''Error code: 429 - Rate limit reached'' = ''error code: 429 - rate limit reached''"
  by code_simp

lemma flaky_fails:
  "\<forall>i<2. raises_rate_limit (agent (fresh flaky)) (prompt q) (length (calls w0) + i)"
  by (simp add: fresh_def init_def flaky_def w0_def raises_rate_limit_def rate_limited_def
      flaky_error_lower)

lemma run_result:
  "search_properties q m ws =
     (fst (search_properties q m ws), fst (snd (search_properties q m ws)),
      snd (snd (search_properties q m ws)))"
  by simp

lemma broken_error_lower: "lower ''Invalid API Key'' = ''invalid api key''"
  by code_simp

lemma w0_simps [simp]: "clock w0 = 0" "sleeps w0 = []" "calls w0 = []"
  by (simp_all add: w0_def)

lemma fresh_miss: "cache (fresh a) k = None"
  by (simp add: fresh_def init_def)

lemma fresh_throttle: "rate_limit 10 (w0, fresh a) = (None, w0, (fresh a)\<lparr>request_times := [0]\<rparr>)"
  by (simp add: rate_limit.simps fresh_def init_def)


lemma flaky_gives_up:
  "fst (search_properties ''3 bed villa with pool'' 2 (w0, fresh flaky)) = GaveUp"
  by (simp add: search_properties.simps rate_limit.simps attempts.simps invoke_def
      time_sleep_def fresh_def init_def flaky_def rate_limited_def flaky_error_lower)

lemma flaky_answers:
  "fst (search_properties ''3 bed villa with pool'' 3 (w0, fresh flaky)) = Answered ''Ref 101, Marina, 3BR''"
  by (simp add: search_properties.simps rate_limit.simps attempts.simps invoke_def
      time_sleep_def fresh_def init_def flaky_def rate_limited_def flaky_error_lower)

lemma second_acquire:
  "rate_limit 1 (w10, snd (snd (rate_limit 1 (w0, fresh a)))) =
     (None, \<lparr>clock = 60, sleeps = [50], calls = []\<rparr>, (fresh a)\<lparr>request_times := [0, 60]\<rparr>)"
  by (simp add: rate_limit.simps fresh_def init_def w10_def time_sleep_def)

lemma burst_pauses: "\<forall>r\<in>set burst. 0 \<le> pause r"
  by (simp add: burst_def)

lemma broken_durations: "\<forall>i p. 0 \<le> fst (limited_then_broken i p)"
  by (simp add: limited_then_broken_def)

lemma burst_session:
  "session burst (w0, fresh limited_then_broken) =
     (\<lparr>clock = 51, sleeps = [40],
       calls = map (\<lambda>t. (t, prompt ''3 bed villa with pool'')) [0, 41, 42, 43, 44, 45, 46, 47, 48, 49, 50]\<rparr>,
      (fresh limited_then_broken)\<lparr>request_times := [0, 42, 43, 44, 45, 46, 47, 48, 49, 50]\<rparr>)"
  by (simp add: burst_def eval_nat_numeral search_properties.simps rate_limit.simps attempts.simps
      invoke_def time_sleep_def fresh_def init_def limited_then_broken_def w0_def
      rate_limited_def flaky_error_lower broken_error_lower)

section \<open>The claims\<close>

text \<open>
  C1. On a cache miss, when the agent's next \<open>r\<close> invocations raise errors classified as
  rate limits and the one after returns \<open>out\<close>, \<open>search_properties\<close> returns \<open>out\<close> after
  \<open>r + 1\<close> invocations if \<open>max_retries > r\<close>, and returns the fixed
  \<open>could not complete\<close> message, raising nothing, if \<open>max_retries \<le> r\<close>.
\<close>

theorem C1_retry_loop:
  assumes miss: "cache s (cache_key q) = None"
    and fail: "\<forall>i<r. raises_rate_limit (agent s) (prompt q) (length (calls w) + i)"
    and ok: "snd (agent s (length (calls w) + r) (prompt q)) = Output out"
    and res: "search_properties q max_retries (w, s) = (res, w', s')"
  shows "(int r < max_retries \<longrightarrow>
            res = Answered out \<and> returned res = Inr out \<and> length (calls w') = length (calls w) + r + 1)
       \<and> (max_retries \<le> int r \<longrightarrow> res = GaveUp \<and> returned res = Inr could_not_complete)"
proof -
  from rate_limit_10_object [of w s] obtain w1 s1 where
    rl: "rate_limit 10 (w, s) = (None, w1, s1)" and c1: "calls w1 = calls w"
    and a1: "agent s1 = agent s" by auto
  have loop: "attempts q (cache_key q) max_retries 0 (w1, s1) = (res, w', s')"
    using res miss rl by (simp add: search_properties.simps)
  show ?thesis
  proof (intro conjI impI)
    assume lt: "int r < max_retries"
    from fail have "\<forall>i<r. raises_rate_limit (agent s1) (prompt q) (length (calls w1) + i)"
      by (simp add: a1 c1)
    moreover have "0 + int r \<le> max_retries" using lt by simp
    ultimately obtain w2 where
      w2: "attempts q (cache_key q) max_retries 0 (w1, s1) =
             attempts q (cache_key q) max_retries (0 + int r) (w2, s1)"
        "length (calls w2) = length (calls w1) + r"
      using attempts_skip [of r s1 q w1 0 max_retries "cache_key q"] by blast
    have out: "snd (agent s1 (length (calls w2)) (prompt q)) = Output out"
      using ok by (simp add: a1 c1 w2(2))
    have "0 + int r < max_retries" using lt by simp
    from attempts_output [OF this out, of "cache_key q"] loop w2
    show "res = Answered out" "returned res = Inr out"
      "length (calls w') = length (calls w) + r + 1"
      by (auto simp: c1)
  next
    assume ge: "max_retries \<le> int r"
    from fail ge have "\<forall>i<nat max_retries. raises_rate_limit (agent s1) (prompt q) (length (calls w1) + i)"
      by (simp add: a1 c1)
    moreover have "0 + int (nat max_retries) \<le> max_retries \<or> max_retries < 0" by simp
    ultimately have "\<exists>w2. attempts q (cache_key q) max_retries 0 (w1, s1) = (GaveUp, w2, s1)"
    proof (cases "max_retries < 0")
      case True
      then show ?thesis by (simp add: attempts_exhausted)
    next
      case False
      then have le: "0 + int (nat max_retries) \<le> max_retries" by simp
      from attempts_skip [OF \<open>\<forall>i<nat max_retries. _\<close> le, of "cache_key q"]
      obtain w2 where "attempts q (cache_key q) max_retries 0 (w1, s1) =
             attempts q (cache_key q) max_retries (0 + int (nat max_retries)) (w2, s1)" by blast
      moreover have "\<not> 0 + int (nat max_retries) < max_retries" using False by simp
      ultimately show ?thesis by (simp add: attempts_exhausted)
    qed
    with loop show "res = GaveUp" "returned res = Inr could_not_complete" by auto
  qed
qed

theorem C1_retry_loop_witness:
  "fst (search_properties ''3 bed villa with pool'' 3 (w0, fresh flaky)) = Answered ''Ref 101, Marina, 3BR''
   \<and> fst (search_properties ''3 bed villa with pool'' 2 (w0, fresh flaky)) = GaveUp"
proof -
  let ?q = "''3 bed villa with pool''"
  have miss: "cache (fresh flaky) (cache_key ?q) = None"
    by (simp add: fresh_def init_def)
  have ok: "snd (agent (fresh flaky) (length (calls w0) + 2) (prompt ?q)) = Output ''Ref 101, Marina, 3BR''"
    by (simp add: fresh_def init_def flaky_def w0_def)
  have run: "search_properties ?q m (w0, fresh flaky) =
      (fst (search_properties ?q m (w0, fresh flaky)),
       fst (snd (search_properties ?q m (w0, fresh flaky))),
       snd (snd (search_properties ?q m (w0, fresh flaky))))" for m
    by simp
  from C1_retry_loop [OF miss flaky_fails ok run [of 3]]
       C1_retry_loop [OF miss flaky_fails ok run [of 2]]
  show ?thesis by simp
qed

text \<open>
  C4. On a cache miss, when an attempt (after \<open>j\<close> rate-limited ones, \<open>j\<close> possibly 0)
  raises an error whose lowercased text contains none of \<open>429\<close>, \<open>rate\<close>,
  \<open>resource_exhausted\<close>, \<open>search_properties\<close> propagates that exception on that attempt:
  the agent is invoked exactly \<open>j + 1\<close> times, and the only sleeps are the throttle's and
  the \<open>j\<close> earlier backoffs, none after the error.
\<close>

theorem C4_other_error_propagates:
  assumes miss: "cache s (cache_key q) = None"
    and fail: "\<forall>i<j. raises_rate_limit (agent s) (prompt q) (length (calls w) + i)"
    and err: "snd (agent s (length (calls w) + j) (prompt q)) = Raises e"
    and other: "\<not> rate_limited (lower e)"
    and lt: "int j < max_retries"
    and res: "search_properties q max_retries (w, s) = (res, w', s')"
  shows "res = Reraised (AgentError e) \<and> returned res = Inl (AgentError e)
       \<and> length (calls w') = length (calls w) + j + 1
       \<and> sleeps w' = sleeps (fst (snd (rate_limit 10 (w, s)))) @ map (backoff 0) [0..<j]"
proof -
  from search_miss_loop [OF miss, of max_retries w] obtain w1 s1 where
    loop: "search_properties q max_retries (w, s) = attempts q (cache_key q) max_retries 0 (w1, s1)"
    and c1: "calls w1 = calls w" and a1: "agent s1 = agent s"
    and w1: "w1 = fst (snd (rate_limit 10 (w, s)))"
    by blast
  from fail have "\<forall>i<j. raises_rate_limit (agent s1) (prompt q) (length (calls w1) + i)"
    by (simp add: a1 c1)
  moreover have "0 + int j \<le> max_retries" using lt by simp
  ultimately obtain w2 where
    w2: "attempts q (cache_key q) max_retries 0 (w1, s1) =
           attempts q (cache_key q) max_retries (0 + int j) (w2, s1)"
      "length (calls w2) = length (calls w1) + j"
      "sleeps w2 = sleeps w1 @ map (backoff 0) [0..<j]"
    using attempts_skip [of j s1 q w1 0 max_retries "cache_key q"] by blast
  have e2: "snd (agent s1 (length (calls w2)) (prompt q)) = Raises e"
    using err by (simp add: a1 c1 w2(2))
  have fin: "attempts q (cache_key q) max_retries (0 + int j) (w2, s1) = (res, w', s')"
    using res loop w2(1) by simp
  have "0 + int j < max_retries" using lt by simp
  from attempts_reraise [OF this e2 other, of "cache_key q"]
  have "(res, w', s') = (Reraised (AgentError e), snd (invoke (agent s1) (prompt q) w2), s1)"
    unfolding fin .
  then have r: "res = Reraised (AgentError e)" "w' = snd (invoke (agent s1) (prompt q) w2)"
    by simp_all
  have "length (calls w') = length (calls w) + j + 1"
    by (simp add: r(2) w2(2) c1)
  moreover have "sleeps w' = sleeps w1 @ map (backoff 0) [0..<j]"
    by (simp add: r(2) w2(3))
  ultimately show ?thesis
    unfolding w1 by (simp add: r(1))
qed

theorem C4_other_error_propagates_witness:
  "fst (search_properties ''3 bed villa with pool'' 3 (w0, fresh limited_then_broken))
     = Reraised (AgentError ''Invalid API Key'')
   \<and> length (calls (fst (snd (search_properties ''3 bed villa with pool'' 3 (w0, fresh limited_then_broken))))) = 2
   \<and> sleeps (fst (snd (search_properties ''3 bed villa with pool'' 3 (w0, fresh limited_then_broken)))) = [40]"
proof -
  let ?q = "''3 bed villa with pool''"
  have fail: "\<forall>i<1. raises_rate_limit (agent (fresh limited_then_broken)) (prompt ?q) (length (calls w0) + i)"
    by (simp add: fresh_def init_def limited_then_broken_def raises_rate_limit_def
        rate_limited_def flaky_error_lower)
  have err: "snd (agent (fresh limited_then_broken) (length (calls w0) + 1) (prompt ?q)) = Raises ''Invalid API Key''"
    by (simp add: fresh_def init_def limited_then_broken_def)
  have other: "\<not> rate_limited (lower ''Invalid API Key'')"
    by (simp add: broken_error_lower rate_limited_def)
  have lt: "int 1 < 3" by simp
  from C4_other_error_propagates [OF fresh_miss fail err other lt run_result]
  show ?thesis by (simp add: fresh_throttle backoff_def)
qed




text \<open>
  C8. When \<open>search_properties\<close> ends by propagating an exception or by returning the fixed
  message (or on a cache hit), the cache is unchanged; the cache gains an entry only
  when the call ends with the agent's output, the last invocation made is the one that
  returned it, and the value stored under the query's key is the returned result.
\<close>

theorem C8_cache_changes_only_on_success:
  assumes "search_properties q max_retries (w, s) = (res, w', s')"
  shows "case res of
           Answered r \<Rightarrow> cache s' = (cache s)(cache_key q \<mapsto> r)
               \<and> returned res = Inr r
               \<and> length (calls w) < length (calls w')
               \<and> snd (agent s (length (calls w') - 1) (prompt q)) = Output r
         | _ \<Rightarrow> cache s' = cache s"
proof (cases "cache s (cache_key q)")
  case (Some r)
  with assms show ?thesis by (auto simp: search_properties.simps)
next
  case None
  from search_miss_loop [OF None, of max_retries w] obtain w1 s1 where
    loop: "search_properties q max_retries (w, s) = attempts q (cache_key q) max_retries 0 (w1, s1)"
    and c1: "calls w1 = calls w" and a1: "agent s1 = agent s" and k1: "cache s1 = cache s"
    by blast
  from attempts_object [of q "cache_key q" max_retries 0 "(w1, s1)" res w' s'] assms loop
  show ?thesis by (auto simp: c1 a1 k1 split: outcome.splits)
qed

theorem C8_cache_changes_only_on_success_witness:
  "cache (snd (snd (search_properties ''3 bed villa with pool'' 2 (w0, fresh flaky)))) = cache (fresh flaky)
   \<and> cache (snd (snd (search_properties ''3 bed villa with pool'' 3 (w0, fresh flaky))))
       = (cache (fresh flaky))(cache_key ''3 bed villa with pool'' \<mapsto> ''Ref 101, Marina, 3BR'')"
  using C8_cache_changes_only_on_success
      [where q = "''3 bed villa with pool''" and max_retries = 2 and w = w0 and s = "fresh flaky",
       OF run_result]
    C8_cache_changes_only_on_success
      [where q = "''3 bed villa with pool''" and max_retries = 3 and w = w0 and s = "fresh flaky",
       OF run_result]
  by (simp add: flaky_gives_up flaky_answers)

text \<open>
  C9. A call of \<open>search_properties\<close> that misses the cache leaves the request-time log
  exactly as the single \<open>_rate_limit\<close> call before the loop leaves it, that is the pruned
  log with one timestamp appended, whatever the number of attempts; no field of the
  object other than the log and the cache changes, and the cache changes only when the
  call ends with the agent's output.
\<close>

theorem C9_one_timestamp_per_miss:
  assumes miss: "cache s (cache_key q) = None"
    and res: "search_properties q max_retries (w, s) = (res, w', s')"
  shows "request_times s' = request_times (snd (snd (rate_limit 10 (w, s))))
       \<and> (\<exists>t. request_times s' = filter (\<lambda>u. clock w - u < 60) (request_times s) @ [t])
       \<and> s' = s\<lparr>cache := cache s', request_times := request_times s'\<rparr>
       \<and> (case res of Answered r \<Rightarrow> cache s' = (cache s)(cache_key q \<mapsto> r) | _ \<Rightarrow> cache s' = cache s)"
proof -
  from rate_limit_10_object [of w s] obtain w1 where
    rl: "rate_limit 10 (w, s) =
      (None, w1, s\<lparr>request_times := filter (\<lambda>t. clock w - t < 60) (request_times s) @ [clock w1]\<rparr>)"
    by blast
  let ?s1 = "s\<lparr>request_times := filter (\<lambda>t. clock w - t < 60) (request_times s) @ [clock w1]\<rparr>"
  have loop: "attempts q (cache_key q) max_retries 0 (w1, ?s1) = (res, w', s')"
    using res miss rl by (simp add: search_properties.simps)
  from attempts_object [OF loop] show ?thesis
    by (cases res) (auto simp: rl)
qed

theorem C9_one_timestamp_per_miss_witness:
  "request_times (snd (snd (search_properties ''3 bed villa with pool'' 3 (w0, fresh flaky)))) = [0]"
  using C9_one_timestamp_per_miss
      [where q = "''3 bed villa with pool''" and max_retries = 3 and w = w0 and s = "fresh flaky",
       OF fresh_miss run_result]
  by (simp add: fresh_throttle)

text \<open>
  C2 (amended). In a session of sequential searches on a fresh object (pauses and agent
  durations not negative), at every point at most 10 timestamps of the log lie within
  the trailing 60 seconds of the current time or of any later time, so a rolling check
  never keeps more than 10 entries. One timestamp is logged per search that misses the
  cache; the agent's invocations themselves are not bounded, since retries are issued
  without the throttle.
\<close>

theorem C2_throttle_budget:
  assumes "\<forall>r\<in>set rs. 0 \<le> pause r" and "\<forall>i p. 0 \<le> fst (a i p)"
    and "clock (fst (session rs (w, init d l a))) \<le> T"
  shows "length (recent T (request_times (snd (session rs (w, init d l a))))) \<le> 10"
proof -
  have "log_ok (w, init d l a)" "within_budget 10 (w, init d l a)" "\<forall>i p. 0 \<le> fst (agent (init d l a) i p)"
    using assms(2) by (simp_all add: log_ok_def within_budget_def init_def recent_def)
  from session_keeps_invariant [OF assms(1) this(3,1,2)]
  have "within_budget 10 (session rs (w, init d l a))" by simp
  with recent_later [OF assms(3), of "request_times (snd (session rs (w, init d l a)))"]
  show ?thesis by (simp add: within_budget_def)
qed

theorem C2_throttle_budget_witness:
  "length (recent 51 (request_times (snd (session burst (w0, fresh limited_then_broken))))) \<le> 10"
proof -
  have "clock (fst (session burst (w0, init () () limited_then_broken))) \<le> 51"
    using burst_session by (simp add: fresh_def)
  from C2_throttle_budget [OF burst_pauses broken_durations this]
  show ?thesis by (simp add: fresh_def)
qed

text \<open>
  Ten searches in a row, the first rate limited once, issue 11 agent invocations within
  51 seconds: more than \<open>max_rpm = 10\<close> in one trailing 60-second window.
\<close>

theorem C2_agent_calls_counterexample:
  "length (calls_within (clock (fst (session burst (w0, fresh limited_then_broken))))
      (fst (session burst (w0, fresh limited_then_broken)))) = 11"
  by (simp add: burst_session calls_within_def)

text \<open>
  C5 (amended). Every call of \<open>_rate_limit\<close> with \<open>max_rpm \<ge> 1\<close> prunes the log to the entries
  within the last 60 seconds of \<open>now\<close>; if the pruned log has at least \<open>max_rpm\<close> entries it
  sleeps \<open>wait = 60 - (now - oldest)\<close> seconds, which is positive; and it appends the time
  read after the sleep, \<open>oldest + 60\<close> when it slept and \<open>now\<close> otherwise. Nothing else of
  the object changes.
\<close>

theorem C5_acquire:
  assumes "1 \<le> max_rpm" and "rate_limit max_rpm (w, s) = (e, w', s')"
  shows "e = None
       \<and> s' = s\<lparr>request_times := recent (clock w) (request_times s) @ [clock w']\<rparr>
       \<and> (if max_rpm \<le> int (length (recent (clock w) (request_times s)))
          then 0 < 60 - (clock w - hd (recent (clock w) (request_times s)))
             \<and> w' = time_sleep (60 - (clock w - hd (recent (clock w) (request_times s)))) w
             \<and> clock w' = hd (recent (clock w) (request_times s)) + 60
          else w' = w)"
proof (cases "max_rpm \<le> int (length (recent (clock w) (request_times s)))")
  case False
  with assms show ?thesis by (auto simp: rate_limit_result Let_def)
next
  case True
  with assms(1) obtain t0 rest where P: "recent (clock w) (request_times s) = t0 # rest"
    by (cases "recent (clock w) (request_times s)") auto
  have wait: "0 < 60 - (clock w - t0)" by (rule Cons_recent_waits [OF P])
  with assms True show ?thesis by (auto simp: rate_limit_result Let_def P)
qed

theorem C5_acquire_witness:
  "clock (fst (snd (rate_limit 1 (w10, snd (snd (rate_limit 1 (w0, fresh flaky))))))) = 60"
proof -
  have one: "(1::int) \<le> 1" by simp
  have run: "rate_limit 1 (w10, snd (snd (rate_limit 1 (w0, fresh flaky)))) =
     (fst (rate_limit 1 (w10, snd (snd (rate_limit 1 (w0, fresh flaky))))),
      fst (snd (rate_limit 1 (w10, snd (snd (rate_limit 1 (w0, fresh flaky)))))),
      snd (snd (rate_limit 1 (w10, snd (snd (rate_limit 1 (w0, fresh flaky)))))))"
    by simp
  have log: "request_times (snd (snd (rate_limit 1 (w0, fresh flaky)))) = [0]"
    by (simp add: rate_limit.simps fresh_def init_def)
  from C5_acquire [OF one run] show ?thesis
    by (simp add: log recent_def w10_def)
qed

text \<open>
  With \<open>max_rpm = 1\<close>, a call at time 0 and a second one at time 10: the second sleeps 50
  seconds and appends 60, not the \<open>now = 10\<close> it pruned with.
\<close>

theorem C5_appends_now_counterexample:
  "request_times (snd (snd (rate_limit 1 (w10, snd (snd (rate_limit 1 (w0, fresh flaky))))))) = [0, 60]
   \<and> clock w10 = 10"
  by (simp add: second_acquire) (simp add: w10_def)

text \<open>
  C10. In a session of sequential searches on a fresh object (pauses and agent durations
  not negative), the request-time log is in nondecreasing order at every point, and a
  \<open>_rate_limit\<close> call made there, with any \<open>max_rpm\<close>, leaves it in nondecreasing order.
\<close>

theorem C10_log_sorted:
  assumes "\<forall>r\<in>set rs. 0 \<le> pause r" and "\<forall>i p. 0 \<le> fst (a i p)"
  shows "sorted (request_times (snd (session rs (w, init d l a))))
       \<and> (\<forall>k. sorted (request_times (snd (snd (rate_limit k (session rs (w, init d l a)))))))"
proof -
  have "log_ok (w, init d l a)" "within_budget 10 (w, init d l a)" "\<forall>i p. 0 \<le> fst (agent (init d l a) i p)"
    using assms(2) by (simp_all add: log_ok_def within_budget_def init_def recent_def)
  from session_keeps_invariant [OF assms(1) this(3,1,2)]
  have ok: "log_ok (session rs (w, init d l a))" by simp
  have "sorted (request_times (snd (snd (rate_limit k (session rs (w, init d l a))))))" for k
  proof -
    obtain w1 s1 where ws: "session rs (w, init d l a) = (w1, s1)"
      by (cases "session rs (w, init d l a)")
    obtain e w2 s2 where rl: "rate_limit k (w1, s1) = (e, w2, s2)"
      by (cases "rate_limit k (w1, s1)")
    from rate_limit_log_ok [OF _ rl] ok show ?thesis by (simp add: ws rl log_ok_def)
  qed
  with ok show ?thesis by (simp add: log_ok_def)
qed

theorem C10_log_sorted_witness:
  "sorted (request_times (snd (session burst (w0, fresh limited_then_broken))))"
  using C10_log_sorted [OF burst_pauses broken_durations, of w0 "()" "()"]
  by (simp add: fresh_def)

(*CLAIMS*)

end
